theory Spec2Isabelle
  imports Main "HOL-Library.AList" "HOL-Library.Multiset"
begin

section \<open>The crossword solver of crossword/generate.py\<close>

subsection \<open>Data model\<close>

text \<open>
  Modelled from the spec: the classes \<open>Variable\<close> and \<open>Crossword\<close> come from the
  module \<open>crossword\<close>, which generate.py imports and which is not part of the sources.
  The spec gives a variable four attributes (row and column of its first cell,
  orientation, length), equality on all four, and gives the puzzle structure a set of
  variables, a vocabulary and an overlap table that holds, for a pair of variables,
  either the two character offsets that must agree or nothing.

  Python sets and dictionaries are iterated in a fixed order; a set is a list without
  duplicates here and the order of the list stands for that order. The overlap table
  is an association list, since \<open>ac3\<close> reads its keys in order.
\<close>

datatype Direction = ACROSS | DOWN

record variable =
  var_i :: nat
  var_j :: nat
  direction :: Direction
  var_length :: nat

type_synonym arc = "variable \<times> variable"

record crossword =
  variables :: "variable list"
  words :: "string list"
  overlaps :: "(arc \<times> (nat \<times> nat) option) list"

text \<open>\<open>self.domains\<close>: a dictionary from variables to their candidate words.\<close>

type_synonym domains = "variable \<rightharpoonup> string list"

text \<open>A partial assignment: a dictionary from variables to words, in insertion order.\<close>

type_synonym assignment = "(variable \<times> string) list"

text \<open>The exceptions the solver can raise.\<close>

datatype error = KeyError | IndexError | TypeError

text \<open>\<open>w[k]\<close> for a non-negative \<open>k\<close>: IndexError beyond the end of the word.\<close>

definition char_at :: "string \<Rightarrow> nat \<Rightarrow> error + char" where
  "char_at w k = (if k < length w then Inr (w ! k) else Inl IndexError)"

text \<open>\<open>self.crossword.overlaps[(x, y)]\<close>: KeyError when the pair is not a key.\<close>

definition overlap_lookup :: "crossword \<Rightarrow> variable \<Rightarrow> variable \<Rightarrow> error + (nat \<times> nat) option" where
  "overlap_lookup cw x y =
     (case map_of (overlaps cw) (x, y) of None \<Rightarrow> Inl KeyError | Some ov \<Rightarrow> Inr ov)"

text \<open>
  Modelled from the spec: \<open>Crossword.neighbors\<close> is a method of the missing module.
  The spec calls neighbors of a variable the variables that have an overlap with it
  (its degree in the overlap graph is their number).
\<close>

definition neighbors :: "crossword \<Rightarrow> variable \<Rightarrow> variable list" where
  "neighbors cw var =
     filter (\<lambda>v. v \<noteq> var \<and> (case map_of (overlaps cw) (var, v) of Some (Some ov) \<Rightarrow> True | _ \<Rightarrow> False))
       (variables cw)"

text \<open>\<open>__init__\<close>: every variable starts with a copy of the whole vocabulary.\<close>

definition init_domains :: "crossword \<Rightarrow> domains" where
  "init_domains cw = (\<lambda>v. if v \<in> set (variables cw) then Some (words cw) else None)"

subsection \<open>Node consistency\<close>

text \<open>
  \<open>enforce_node_consistency\<close> replaces the value of every key of \<open>self.domains\<close> by the
  list of its words whose length is the variable's length.
\<close>

definition enforce_node_consistency :: "domains \<Rightarrow> domains" where
  "enforce_node_consistency d =
     (\<lambda>v. case d v of None \<Rightarrow> None
          | Some ws \<Rightarrow> Some (filter (\<lambda>word. length word = var_length v) ws))"

subsection \<open>Revise\<close>

text \<open>
  The inner loop of \<open>revise\<close> over the words of \<open>y\<close>: it stops at the first word whose
  character at offset \<open>j\<close> is the character of \<open>xWord\<close> at offset \<open>i\<close>.
\<close>

fun has_value :: "string \<Rightarrow> nat \<Rightarrow> nat \<Rightarrow> string list \<Rightarrow> error + bool" where
  "has_value xWord i j [] = Inr False"
| "has_value xWord i j (yWord # ys) =
     (case char_at xWord i of Inl e \<Rightarrow> Inl e
      | Inr c \<Rightarrow>
         (case char_at yWord j of Inl e \<Rightarrow> Inl e
          | Inr c' \<Rightarrow> if c = c' then Inr True else has_value xWord i j ys))"

text \<open>
  The outer loop over the words of \<open>x\<close>, with the two locals \<open>consistentDomain\<close> and
  \<open>revisionMade\<close> as accumulator. \<open>self.domains[y]\<close> is read once per word of \<open>x\<close>.
\<close>

fun revise_loop ::
  "nat \<Rightarrow> nat \<Rightarrow> string list \<Rightarrow> string list option \<Rightarrow> string list \<times> bool \<Rightarrow> error + string list \<times> bool" where
  "revise_loop i j [] dy (consistentDomain, revisionMade) = Inr (consistentDomain, revisionMade)"
| "revise_loop i j (xWord # xs) dy (consistentDomain, revisionMade) =
     (case dy of None \<Rightarrow> Inl KeyError
      | Some ys \<Rightarrow>
         (case has_value xWord i j ys of Inl e \<Rightarrow> Inl e
          | Inr hasValue \<Rightarrow>
              if hasValue then revise_loop i j xs dy (consistentDomain @ [xWord], revisionMade)
              else revise_loop i j xs dy (consistentDomain, False)))"

text \<open>
  \<open>revise\<close> returns the flag and the updated domains. \<open>revisionMade\<close> starts as
  \<open>True\<close>, as in the source.
\<close>

definition revise :: "crossword \<Rightarrow> domains \<Rightarrow> variable \<Rightarrow> variable \<Rightarrow> error + bool \<times> domains" where
  "revise cw d x y =
     (case overlap_lookup cw x y of Inl e \<Rightarrow> Inl e
      | Inr None \<Rightarrow> Inr (False, d)
      | Inr (Some (i, j)) \<Rightarrow>
         (case d x of None \<Rightarrow> Inl KeyError
          | Some xs \<Rightarrow>
             (case revise_loop i j xs (d y) ([], True) of Inl e \<Rightarrow> Inl e
              | Inr (consistentDomain, revisionMade) \<Rightarrow>
                  Inr (revisionMade, d(x \<mapsto> consistentDomain)))))"

subsection \<open>AC-3\<close>

text \<open>
  The list comprehension of \<open>ac3\<close>: the second components of the keys of the overlap
  table whose first component is \<open>x\<close> and whose second is not \<open>y\<close>.
\<close>

definition arc_neighbors :: "crossword \<Rightarrow> variable \<Rightarrow> variable \<Rightarrow> variable list" where
  "arc_neighbors cw x y =
     map snd (filter (\<lambda>(v1, v2). v1 = x \<and> v2 \<noteq> y) (map fst (overlaps cw)))"

text \<open>
  The \<open>while arcs\<close> loop. It need not terminate, so the result is an option: \<open>None\<close>
  stands for a loop that never returns.
\<close>

partial_function (option) ac3_loop ::
  "crossword \<Rightarrow> arc list \<Rightarrow> domains \<Rightarrow> (error + bool \<times> domains) option" where
  "ac3_loop cw arcs d =
     (case arcs of
        [] \<Rightarrow> Some (Inr (True, d))
      | (x, y) # rest \<Rightarrow>
         (case revise cw d x y of
            Inl e \<Rightarrow> Some (Inl e)
          | Inr (revised, d') \<Rightarrow>
             if revised then
               (case d' x of
                  None \<Rightarrow> Some (Inl KeyError)
                | Some ws \<Rightarrow>
                   if ws = [] then Some (Inr (False, d'))
                   else ac3_loop cw (rest @ map (\<lambda>neighbor. (neighbor, x)) (arc_neighbors cw x y)) d')
             else ac3_loop cw rest d'))"

declare ac3_loop.simps [code]

text \<open>\<open>if not arcs\<close> holds for \<open>None\<close> and for the empty list.\<close>

definition ac3 :: "crossword \<Rightarrow> domains \<Rightarrow> arc list option \<Rightarrow> (error + bool \<times> domains) option" where
  "ac3 cw d arcs =
     (case arcs of
        None \<Rightarrow> ac3_loop cw (map fst (overlaps cw)) d
      | Some as \<Rightarrow> if as = [] then ac3_loop cw (map fst (overlaps cw)) d else ac3_loop cw as d)"

subsection \<open>Checks on assignments\<close>

text \<open>\<open>not assignment[v]\<close> holds for the empty word.\<close>

definition assignment_complete :: "crossword \<Rightarrow> assignment \<Rightarrow> bool" where
  "assignment_complete cw a =
     list_all (\<lambda>v. case map_of a v of None \<Rightarrow> False | Some word \<Rightarrow> word \<noteq> []) (variables cw)"

text \<open>The first loop of \<open>consistent\<close>, with the local list \<open>allWords\<close>.\<close>

fun consistent_words :: "assignment \<Rightarrow> string list \<Rightarrow> bool" where
  "consistent_words [] allWords = True"
| "consistent_words ((v, word) # rest) allWords =
     (if word \<notin> set allWords then
        (if var_length v \<noteq> length word then False
         else consistent_words rest (allWords @ [word]))
      else False)"

text \<open>
  The second loop of \<open>consistent\<close>, over the keys of the overlap table. Its test is
  \<open>if[overlap != None]\<close>: the condition is a list of one Boolean, and a list is true
  when it is not empty. The characters are compared in the other branch only.
\<close>

fun consistent_overlaps :: "assignment \<Rightarrow> (arc \<times> (nat \<times> nat) option) list \<Rightarrow> error + bool" where
  "consistent_overlaps a [] = Inr True"
| "consistent_overlaps a (((x, y), overlap) # rest) =
     (case (map_of a x, map_of a y) of
        (Some xWord, Some yWord) \<Rightarrow>
          if [overlap \<noteq> None] \<noteq> [] then consistent_overlaps a rest
          else
            (case overlap of None \<Rightarrow> Inl TypeError
             | Some (i, j) \<Rightarrow>
                (case char_at xWord i of Inl e \<Rightarrow> Inl e
                 | Inr c \<Rightarrow>
                    (case char_at yWord j of Inl e \<Rightarrow> Inl e
                     | Inr c' \<Rightarrow> if c \<noteq> c' then Inr False else consistent_overlaps a rest)))
      | _ \<Rightarrow> consistent_overlaps a rest)"

definition consistent :: "crossword \<Rightarrow> assignment \<Rightarrow> error + bool" where
  "consistent cw a =
     (if consistent_words a [] then consistent_overlaps a (overlaps cw) else Inr False)"

subsection \<open>Ordering heuristics\<close>

text \<open>
  \<open>order_domain_values\<close>: the dictionary \<open>num_choices_eliminated\<close> is an association
  list in insertion order. The three nested loops, innermost first.
\<close>

type_synonym counts = "(string \<times> nat) list"

fun eliminate_words :: "string \<Rightarrow> (nat \<times> nat) option \<Rightarrow> string list \<Rightarrow> counts \<Rightarrow> error + counts" where
  "eliminate_words word_var overlap [] num = Inr num"
| "eliminate_words word_var overlap (word_n # ws) num =
     (case overlap of None \<Rightarrow> Inl TypeError
      | Some (i, j) \<Rightarrow>
         (case char_at word_var i of Inl e \<Rightarrow> Inl e
          | Inr c \<Rightarrow>
             (case char_at word_n j of Inl e \<Rightarrow> Inl e
              | Inr c' \<Rightarrow>
                 if c \<noteq> c' then
                   (case map_of num word_var of None \<Rightarrow> Inl KeyError
                    | Some n \<Rightarrow> eliminate_words word_var overlap ws (AList.update word_var (n + 1) num))
                 else eliminate_words word_var overlap ws num)))"

fun eliminate_neighbors ::
  "crossword \<Rightarrow> domains \<Rightarrow> variable \<Rightarrow> string \<Rightarrow> variable list \<Rightarrow> counts \<Rightarrow> error + counts" where
  "eliminate_neighbors cw d var word_var [] num = Inr num"
| "eliminate_neighbors cw d var word_var (neighbor # ns) num =
     (case overlap_lookup cw var neighbor of Inl e \<Rightarrow> Inl e
      | Inr overlap \<Rightarrow>
         (case d neighbor of None \<Rightarrow> Inl KeyError
          | Some ws \<Rightarrow>
             (case eliminate_words word_var overlap ws num of Inl e \<Rightarrow> Inl e
              | Inr num' \<Rightarrow> eliminate_neighbors cw d var word_var ns num')))"

fun eliminate_domain ::
  "crossword \<Rightarrow> domains \<Rightarrow> variable \<Rightarrow> string list \<Rightarrow> variable list \<Rightarrow> counts \<Rightarrow> error + counts" where
  "eliminate_domain cw d var [] ns num = Inr num"
| "eliminate_domain cw d var (word_var # ws) ns num =
     (case eliminate_neighbors cw d var word_var ns num of Inl e \<Rightarrow> Inl e
      | Inr num' \<Rightarrow> eliminate_domain cw d var ws ns num')"

text \<open>
  \<open>sorted\<close> is stable, as \<open>sort_key\<close> is. The unassigned neighbors are
  \<open>neighbors - assignment.keys()\<close>.
\<close>

definition order_domain_values ::
  "crossword \<Rightarrow> domains \<Rightarrow> variable \<Rightarrow> assignment \<Rightarrow> error + string list" where
  "order_domain_values cw d var a =
     (case d var of None \<Rightarrow> Inl KeyError
      | Some ws \<Rightarrow>
         (let num_choices_eliminated = fold (\<lambda>word num. AList.update word 0 num) ws [];
              ns = filter (\<lambda>n. n \<notin> fst ` set a) (neighbors cw var)
          in case eliminate_domain cw d var ws ns num_choices_eliminated of Inl e \<Rightarrow> Inl e
             | Inr num \<Rightarrow> Inr (map fst (sort_key snd num))))"

text \<open>The dictionary comprehension \<open>num_remaining_values\<close> of \<open>select_unassigned_variable\<close>.\<close>

fun remaining_values :: "domains \<Rightarrow> variable list \<Rightarrow> error + (variable \<times> nat) list" where
  "remaining_values d [] = Inr []"
| "remaining_values d (v # vs) =
     (case d v of None \<Rightarrow> Inl KeyError
      | Some ws \<Rightarrow>
         (case remaining_values d vs of Inl e \<Rightarrow> Inl e
          | Inr r \<Rightarrow> Inr ((v, length ws) # r)))"

text \<open>
  \<open>select_unassigned_variable\<close>. On a tie of the two smallest domains the degrees are
  computed for every unassigned variable and sorted in descending order (a stable sort).
  With no unassigned variable, \<open>sorted_num_remaining_values[0]\<close> raises IndexError.
\<close>

definition select_unassigned_variable ::
  "crossword \<Rightarrow> domains \<Rightarrow> assignment \<Rightarrow> error + variable" where
  "select_unassigned_variable cw d a =
     (let unassigned_variables = filter (\<lambda>v. v \<notin> fst ` set a) (variables cw)
      in case remaining_values d unassigned_variables of Inl e \<Rightarrow> Inl e
         | Inr num_remaining_values \<Rightarrow>
            (case sort_key snd num_remaining_values of
               [] \<Rightarrow> Inl IndexError
             | [p] \<Rightarrow> Inr (fst p)
             | p # q # _ \<Rightarrow>
                if snd p \<noteq> snd q then Inr (fst p)
                else
                  (let num_degrees = map (\<lambda>v. (v, length (neighbors cw v))) unassigned_variables
                   in case sort_key (\<lambda>x. - int (snd x)) num_degrees of
                        [] \<Rightarrow> Inl IndexError
                      | r # _ \<Rightarrow> Inr (fst r))))"

subsection \<open>Backtracking search\<close>

text \<open>
  \<open>backtrack\<close> mutates the dictionary it is given, so the model returns the result
  together with the dictionary as the call leaves it. The first argument bounds the
  depth of the recursion; \<open>None\<close> means that the bound was reached.
  \<open>backtrack_values\<close> is the \<open>for value in ...\<close> loop of one call.
\<close>

fun backtrack ::
    "nat \<Rightarrow> crossword \<Rightarrow> domains \<Rightarrow> assignment \<Rightarrow> (error + assignment option \<times> assignment) option"
  and backtrack_values ::
    "nat \<Rightarrow> crossword \<Rightarrow> domains \<Rightarrow> variable \<Rightarrow> string list \<Rightarrow> assignment
      \<Rightarrow> (error + assignment option \<times> assignment) option" where
  "backtrack 0 cw d a = None"
| "backtrack (Suc n) cw d a =
     (if assignment_complete cw a then Some (Inr (Some a, a))
      else
        (case select_unassigned_variable cw d a of Inl e \<Rightarrow> Some (Inl e)
         | Inr var \<Rightarrow>
            (case order_domain_values cw d var a of Inl e \<Rightarrow> Some (Inl e)
             | Inr vals \<Rightarrow> backtrack_values n cw d var vals a)))"
| "backtrack_values n cw d var [] a = Some (Inr (None, a))"
| "backtrack_values n cw d var (value # vals) a =
     (let test_assignment = AList.update var value a
      in case consistent cw test_assignment of Inl e \<Rightarrow> Some (Inl e)
         | Inr ok \<Rightarrow>
            if ok then
              (case backtrack n cw d (AList.update var value a) of
                 None \<Rightarrow> None
               | Some (Inl e) \<Rightarrow> Some (Inl e)
               | Some (Inr (Some result, a')) \<Rightarrow> Some (Inr (Some result, a'))
               | Some (Inr (None, a')) \<Rightarrow> backtrack_values n cw d var vals (AList.delete var a'))
            else backtrack_values n cw d var vals (AList.delete var a))"

subsection \<open>Solve\<close>

text \<open>
  \<open>solve\<close> discards what \<open>ac3\<close> returns. A search never nests deeper than the number
  of variables plus one (lemma \<open>backtrack_enough_fuel\<close>).
\<close>

definition solve :: "crossword \<Rightarrow> (error + assignment option) option" where
  "solve cw =
     (case ac3 cw (enforce_node_consistency (init_domains cw)) None of
        None \<Rightarrow> None
      | Some (Inl e) \<Rightarrow> Some (Inl e)
      | Some (Inr (arc_consistent, d)) \<Rightarrow>
         (case backtrack (Suc (length (variables cw))) cw d [] of
            None \<Rightarrow> None
          | Some (Inl e) \<Rightarrow> Some (Inl e)
          | Some (Inr (result, a)) \<Rightarrow> Some (Inr result)))"

subsection \<open>Specification-side notions\<close>

text \<open>
  A word of \<open>x\<close> is supported by the domain of \<open>y\<close> when some word there carries the
  same character at the overlap.
\<close>

definition supported :: "nat \<Rightarrow> nat \<Rightarrow> string list \<Rightarrow> string \<Rightarrow> bool" where
  "supported i j ys w = (\<exists>w2 \<in> set ys. i < length w \<and> j < length w2 \<and> w ! i = w2 ! j)"

text \<open>
  The spec's wording of a consistent assignment: the bound words are pairwise distinct,
  every bound word has the length of its variable, and for every pair of bound
  variables with an overlap the two words carry the same character at the two offsets.
\<close>

definition words_agree :: "(nat \<times> nat) option \<Rightarrow> string \<Rightarrow> string \<Rightarrow> bool" where
  "words_agree overlap xWord yWord =
     (case overlap of None \<Rightarrow> True
      | Some (i, j) \<Rightarrow> i < length xWord \<and> j < length yWord \<and> xWord ! i = yWord ! j)"

definition spec_consistent :: "crossword \<Rightarrow> assignment \<Rightarrow> bool" where
  "spec_consistent cw a =
     (distinct (map snd a)
      \<and> list_all (\<lambda>(v, word). length word = var_length v) a
      \<and> list_all (\<lambda>((x, y), overlap).
           case (map_of a x, map_of a y) of
             (Some xWord, Some yWord) \<Rightarrow> words_agree overlap xWord yWord
           | _ \<Rightarrow> True) (overlaps cw))"

text \<open>
  Monotone pruning: a store has shrunk when it has the same keys and every domain is
  contained in the former one, with no more entries than before.
\<close>

definition domains_shrink :: "domains \<Rightarrow> domains \<Rightarrow> bool" where
  "domains_shrink d d' =
     (\<forall>v. case d v of None \<Rightarrow> d' v = None
          | Some ws \<Rightarrow>
             (case d' v of None \<Rightarrow> False
              | Some ws' \<Rightarrow> set ws' \<subseteq> set ws \<and> length ws' \<le> length ws))"

text \<open>
  The spec's count for least-constraining-value: the number of candidate words that a
  word \<open>w\<close> of \<open>var\<close> would eliminate, summed over the unassigned neighbors of \<open>var\<close>;
  \<open>w\<close> eliminates a candidate \<open>w2\<close> of a neighbor when the two differ at the offsets of
  the overlap.
\<close>

definition conflicting :: "(nat \<times> nat) option \<Rightarrow> string \<Rightarrow> string list \<Rightarrow> nat" where
  "conflicting overlap w ws =
     (case overlap of None \<Rightarrow> 0
      | Some (i, j) \<Rightarrow> length (filter (\<lambda>w2. w ! i \<noteq> w2 ! j) ws))"

definition eliminated_at :: "crossword \<Rightarrow> domains \<Rightarrow> variable \<Rightarrow> string \<Rightarrow> variable \<Rightarrow> nat" where
  "eliminated_at cw d var w n =
     (case (map_of (overlaps cw) (var, n), d n) of
        (Some overlap, Some ws) \<Rightarrow> conflicting overlap w ws
      | _ \<Rightarrow> 0)"

definition eliminated :: "crossword \<Rightarrow> domains \<Rightarrow> assignment \<Rightarrow> variable \<Rightarrow> string \<Rightarrow> nat" where
  "eliminated cw d a var w =
     sum_list (map (eliminated_at cw d var w) (filter (\<lambda>n. n \<notin> fst ` set a) (neighbors cw var)))"

text \<open>A dictionary with the keys \<open>ks\<close>, in this order, and the values \<open>c k\<close>.\<close>

definition tab :: "(string \<Rightarrow> nat) \<Rightarrow> string list \<Rightarrow> counts" where
  "tab c ks = map (\<lambda>k. (k, c k)) ks"

text \<open>
  Propagation along an arc, between the store \<open>d\<close> a run starts from and the store
  \<open>d'\<close> it leaves: when the arc has an overlap, every word left for its first variable
  is supported by a word that the second variable had at the start.
\<close>

definition arc_propagated :: "crossword \<Rightarrow> domains \<Rightarrow> domains \<Rightarrow> arc \<Rightarrow> bool" where
  "arc_propagated cw d d' a =
     (\<forall>i j ys ws'. map_of (overlaps cw) a = Some (Some (i, j)) \<and> d (snd a) = Some ys
        \<and> d' (fst a) = Some ws' \<longrightarrow> (\<forall>w \<in> set ws'. supported i j ys w))"

subsection \<open>Example puzzles\<close>

text \<open>
  Two crossing slots of length two: the second cell of the across slot is the first
  cell of the down slot. The vocabulary is a parameter.
\<close>

definition slot_across :: variable where
  "slot_across = \<lparr>var_i = 0, var_j = 0, direction = ACROSS, var_length = 2\<rparr>"

definition slot_down :: variable where
  "slot_down = \<lparr>var_i = 0, var_j = 1, direction = DOWN, var_length = 2\<rparr>"

definition two_slots :: "string list \<Rightarrow> crossword" where
  "two_slots vocabulary =
     \<lparr>variables = [slot_across, slot_down], words = vocabulary,
      overlaps = [((slot_across, slot_down), Some (1, 0)), ((slot_down, slot_across), Some (0, 1))]\<rparr>"

text \<open>
  A block of two by two open cells: two across slots and two down slots of length two,
  every across slot crossing every down slot. The overlap table has an entry for every
  ordered pair of distinct variables, empty for the slots that do not cross.
\<close>

definition sq_a0 :: variable where
  "sq_a0 = \<lparr>var_i = 0, var_j = 0, direction = ACROSS, var_length = 2\<rparr>"

definition sq_a1 :: variable where
  "sq_a1 = \<lparr>var_i = 1, var_j = 0, direction = ACROSS, var_length = 2\<rparr>"

definition sq_d0 :: variable where
  "sq_d0 = \<lparr>var_i = 0, var_j = 0, direction = DOWN, var_length = 2\<rparr>"

definition sq_d1 :: variable where
  "sq_d1 = \<lparr>var_i = 0, var_j = 1, direction = DOWN, var_length = 2\<rparr>"

definition square :: "string list \<Rightarrow> crossword" where
  "square vocabulary =
     \<lparr>variables = [sq_a0, sq_a1, sq_d0, sq_d1], words = vocabulary,
      overlaps =
        [((sq_a0, sq_a1), None), ((sq_a0, sq_d0), Some (0, 0)), ((sq_a0, sq_d1), Some (1, 0)),
         ((sq_a1, sq_a0), None), ((sq_a1, sq_d0), Some (0, 1)), ((sq_a1, sq_d1), Some (1, 1)),
         ((sq_d0, sq_a0), Some (0, 0)), ((sq_d0, sq_a1), Some (1, 0)), ((sq_d0, sq_d1), None),
         ((sq_d1, sq_a0), Some (0, 1)), ((sq_d1, sq_a1), Some (1, 1)), ((sq_d1, sq_d0), None)]\<rparr>"

definition square_crossing :: "arc list" where
  "square_crossing =
     [(sq_a0, sq_d0), (sq_a0, sq_d1), (sq_a1, sq_d0), (sq_a1, sq_d1),
      (sq_d0, sq_a0), (sq_d0, sq_a1), (sq_d1, sq_a0), (sq_d1, sq_a1)]"

definition square_parallel :: "arc list" where
  "square_parallel = [(sq_a0, sq_a1), (sq_a1, sq_a0), (sq_d0, sq_d1), (sq_d1, sq_d0)]"

definition square_domains :: domains where
  "square_domains = enforce_node_consistency (init_domains (square [''AB'', ''BA'']))"

text \<open>
  What every queue of \<open>ac3\<close> on the block satisfies: it holds arcs of the overlap
  table only, and at least one arc of two crossing slots.
\<close>

definition queue_inv :: "arc list \<Rightarrow> bool" where
  "queue_inv q = (set q \<subseteq> set square_crossing \<union> set square_parallel \<and> (\<exists>a \<in> set q. a \<in> set square_crossing))"

text \<open>
  An across slot of length three with a down slot of length two hanging from its first
  and from its last cell.
\<close>

definition comb_across :: variable where
  "comb_across = \<lparr>var_i = 0, var_j = 0, direction = ACROSS, var_length = 3\<rparr>"

definition comb_left :: variable where
  "comb_left = \<lparr>var_i = 0, var_j = 0, direction = DOWN, var_length = 2\<rparr>"

definition comb_right :: variable where
  "comb_right = \<lparr>var_i = 0, var_j = 2, direction = DOWN, var_length = 2\<rparr>"

definition comb :: "string list \<Rightarrow> crossword" where
  "comb vocabulary =
     \<lparr>variables = [comb_left, comb_right, comb_across], words = vocabulary,
      overlaps =
        [((comb_left, comb_right), None), ((comb_left, comb_across), Some (0, 0)),
         ((comb_right, comb_left), None), ((comb_right, comb_across), Some (0, 2)),
         ((comb_across, comb_left), Some (0, 0)), ((comb_across, comb_right), Some (2, 0))]\<rparr>"

section \<open>Properties\<close>

subsection \<open>Revise\<close>

lemma has_value_Inr: "has_value w i j ys = Inr b \<Longrightarrow> b = supported i j ys w"
  by (induction ys) (auto simp: supported_def char_at_def split: if_splits sum.splits)

lemma has_value_total:
  "i < length w \<Longrightarrow> \<forall>w2 \<in> set ys. j < length w2 \<Longrightarrow> \<exists>b. has_value w i j ys = Inr b"
  by (induction ys) (auto simp: char_at_def)

lemma revise_loop_Inr:
  "revise_loop i j xs (Some ys) (acc, f) = Inr (acc', f') \<Longrightarrow>
     acc' = acc @ filter (supported i j ys) xs \<and> f' = (f \<and> (\<forall>w \<in> set xs. supported i j ys w))"
proof (induction xs arbitrary: acc f)
  case Nil
  then show ?case by simp
next
  case (Cons w xs)
  from Cons.prems obtain b where b: "has_value w i j ys = Inr b"
    by (auto split: sum.splits)
  then have sb: "b = supported i j ys w" by (rule has_value_Inr)
  show ?case
  proof (cases b)
    case True
    with b Cons.prems have "revise_loop i j xs (Some ys) (acc @ [w], f) = Inr (acc', f')" by simp
    from Cons.IH [OF this] True sb show ?thesis by simp
  next
    case False
    with b Cons.prems have "revise_loop i j xs (Some ys) (acc, False) = Inr (acc', f')" by simp
    from Cons.IH [OF this] False sb show ?thesis by simp
  qed
qed

lemma revise_loop_total:
  "\<forall>w \<in> set xs. i < length w \<Longrightarrow> \<forall>w2 \<in> set ys. j < length w2 \<Longrightarrow>
     \<exists>r. revise_loop i j xs (Some ys) (acc, f) = Inr r"
proof (induction xs arbitrary: acc f)
  case Nil
  then show ?case by simp
next
  case (Cons w xs)
  from Cons.prems obtain b where "has_value w i j ys = Inr b"
    using has_value_total [of i w ys j] by auto
  with Cons show ?case by (cases b) auto
qed

lemma slots_distinct: "slot_across \<noteq> slot_down" "slot_down \<noteq> slot_across"
  by (simp_all add: slot_across_def slot_down_def)

text \<open>
  C7: for an arc with a defined overlap \<open>(i, j)\<close>, whenever \<open>revise\<close> returns, the
  domain of \<open>x\<close> is its former domain restricted to the words that some word of the
  domain of \<open>y\<close> supports at the overlap, and nothing else in the store changes; and
  it does return when the offsets lie inside every word of the two domains.
\<close>

theorem revise_keeps_exactly_supported:
  assumes "map_of (overlaps cw) (x, y) = Some (Some (i, j))"
    and "d x = Some xs" and "d y = Some ys"
  shows "(\<forall>b d'. revise cw d x y = Inr (b, d') \<longrightarrow> d' = d(x \<mapsto> filter (supported i j ys) xs))
       \<and> ((\<forall>w \<in> set xs. i < length w) \<and> (\<forall>w2 \<in> set ys. j < length w2)
            \<longrightarrow> (\<exists>b. revise cw d x y = Inr (b, d(x \<mapsto> filter (supported i j ys) xs))))"
proof (intro conjI allI impI)
  fix b d'
  assume "revise cw d x y = Inr (b, d')"
  with assms show "d' = d(x \<mapsto> filter (supported i j ys) xs)"
    by (auto simp: revise_def overlap_lookup_def split: sum.splits dest!: revise_loop_Inr)
next
  assume "(\<forall>w \<in> set xs. i < length w) \<and> (\<forall>w2 \<in> set ys. j < length w2)"
  then obtain r where r: "revise_loop i j xs (Some ys) ([], True) = Inr r"
    using revise_loop_total [of xs i ys j "[]" True] by blast
  obtain acc f where "r = (acc, f)" by (cases r)
  with r assms show "\<exists>b. revise cw d x y = Inr (b, d(x \<mapsto> filter (supported i j ys) xs))"
    by (auto simp: revise_def overlap_lookup_def dest!: revise_loop_Inr)
qed

theorem revise_keeps_exactly_supported_witness:
  "map_of (overlaps (two_slots [])) (slot_across, slot_down) = Some (Some (1, 0))
   \<and> (\<exists>b. revise (two_slots []) [slot_across \<mapsto> [''AB'', ''CD''], slot_down \<mapsto> [''BX'']]
             slot_across slot_down
           = Inr (b, [slot_across \<mapsto> [''AB''], slot_down \<mapsto> [''BX'']]))"
proof -
  let ?d = "[slot_across \<mapsto> [''AB'', ''CD''], slot_down \<mapsto> [''BX'']]"
  have h1: "map_of (overlaps (two_slots [])) (slot_across, slot_down) = Some (Some (1, 0))"
    by (simp add: two_slots_def)
  have h2: "?d slot_across = Some [''AB'', ''CD'']"
    by (simp add: slots_distinct)
  have h3: "?d slot_down = Some [''BX'']"
    by simp
  have r: "(\<forall>w \<in> set [''AB'', ''CD'']. 1 < length w) \<and> (\<forall>w2 \<in> set [''BX'']. 0 < length w2)"
    by simp
  have f: "filter (supported 1 0 [''BX'']) [''AB'', ''CD''] = [''AB'']"
    by (simp add: supported_def)
  have u: "?d(slot_across \<mapsto> [''AB'']) = [slot_across \<mapsto> [''AB''], slot_down \<mapsto> [''BX'']]"
    by (rule ext) (simp add: slots_distinct)
  from revise_keeps_exactly_supported [OF h1 h2 h3, THEN conjunct2, THEN mp, OF r]
  have "\<exists>b. revise (two_slots []) ?d slot_across slot_down = Inr (b, ?d(slot_across \<mapsto> [''AB'']))"
    unfolding f .
  then have "\<exists>b. revise (two_slots []) ?d slot_across slot_down
      = Inr (b, [slot_across \<mapsto> [''AB''], slot_down \<mapsto> [''BX'']])"
    unfolding u .
  with h1 show ?thesis by (rule conjI)
qed

subsection \<open>AC-3 on the two-by-two block\<close>

lemmas sq_defs = sq_a0_def sq_a1_def sq_d0_def sq_d1_def

lemma square_domains_apply:
  "square_domains = (\<lambda>v. if v \<in> {sq_a0, sq_a1, sq_d0, sq_d1} then Some [''AB'', ''BA''] else None)"
  by (rule ext) (auto simp: square_domains_def enforce_node_consistency_def init_domains_def square_def sq_defs)

lemma sq_neq:
  "sq_a0 \<noteq> sq_a1" "sq_a0 \<noteq> sq_d0" "sq_a0 \<noteq> sq_d1"
  "sq_a1 \<noteq> sq_a0" "sq_a1 \<noteq> sq_d0" "sq_a1 \<noteq> sq_d1"
  "sq_d0 \<noteq> sq_a0" "sq_d0 \<noteq> sq_a1" "sq_d0 \<noteq> sq_d1"
  "sq_d1 \<noteq> sq_a0" "sq_d1 \<noteq> sq_a1" "sq_d1 \<noteq> sq_d0"
  by (simp_all add: sq_defs)

lemma square_arcs:
  "set (map fst (overlaps (square ws))) = set square_crossing \<union> set square_parallel"
  by (auto simp: square_def square_crossing_def square_parallel_def)

lemma revise_crossing:
  "a \<in> set square_crossing \<Longrightarrow>
     revise (square [''AB'', ''BA'']) square_domains (fst a) (snd a) = Inr (True, square_domains)"
  by (auto simp: square_crossing_def revise_def overlap_lookup_def square_def char_at_def
      fun_upd_idem_iff square_domains_apply sq_neq)

lemma revise_parallel:
  "a \<in> set square_parallel \<Longrightarrow>
     revise (square [''AB'', ''BA'']) square_domains (fst a) (snd a) = Inr (False, square_domains)"
  by (auto simp: square_parallel_def revise_def overlap_lookup_def square_def sq_neq)

lemma neighbors_crossing:
  "a \<in> set square_crossing \<Longrightarrow>
     (\<exists>z \<in> set (arc_neighbors (square ws) (fst a) (snd a)). (z, fst a) \<in> set square_crossing)
     \<and> (\<forall>z \<in> set (arc_neighbors (square ws) (fst a) (snd a)).
           (z, fst a) \<in> set square_crossing \<union> set square_parallel)"
  by (auto simp: square_crossing_def square_parallel_def square_def arc_neighbors_def sq_neq)

lemma crossing_not_parallel: "a \<in> set square_crossing \<Longrightarrow> a \<notin> set square_parallel"
  by (auto simp: square_crossing_def square_parallel_def sq_neq)

lemma crossing_domain_nonempty:
  "a \<in> set square_crossing \<Longrightarrow> square_domains (fst a) = Some [''AB'', ''BA'']"
  by (auto simp: square_crossing_def square_domains_apply)

lemma ac3_loop_square_never_returns:
  assumes "ac3_loop cw q d = Some r"
  shows "cw = square [''AB'', ''BA''] \<Longrightarrow> d = square_domains \<Longrightarrow> queue_inv q \<Longrightarrow> False"
  using assms
proof (induction cw q d r rule: ac3_loop.raw_induct [rotated 1, consumes 1, case_names step])
  case (step loop cw q d r)
  note IH = step(1) and body = step(2) and cw = step(3) and d = step(4) and inv = step(5)
  from inv obtain a rest where q: "q = a # rest"
    by (cases q) (auto simp: queue_inv_def)
  obtain x y where a: "a = (x, y)" by (cases a)
  show ?case
  proof (cases "a \<in> set square_crossing")
    case True
    let ?q' = "rest @ map (\<lambda>neighbor. (neighbor, x)) (arc_neighbors cw x y)"
    from True have rv: "revise cw d x y = Inr (True, d)"
      using revise_crossing [of a] cw d a by simp
    from True have dx: "d x = Some [''AB'', ''BA'']"
      using crossing_domain_nonempty [of a] d a by simp
    from body q a rv dx have call: "loop cw ?q' d = Some r" by simp
    from neighbors_crossing [OF True, of "[''AB'', ''BA'']"] inv q a cw
    have "queue_inv ?q'"
      by (auto simp: queue_inv_def)
    from IH [OF call cw d this] show False .
  next
    case False
    with inv q have par: "a \<in> set square_parallel" and inv': "queue_inv rest"
      by (auto simp: queue_inv_def)
    from par have rv: "revise cw d x y = Inr (False, d)"
      using revise_parallel [of a] cw d a by simp
    from body q a rv have call: "loop cw rest d = Some r" by simp
    from IH [OF call cw d inv'] show False .
  qed
qed

text \<open>
  C5 claims that \<open>ac3\<close> terminates on every input. The source does not: \<open>revise\<close>
  answers \<open>True\<close> exactly when it removed nothing, so \<open>ac3\<close> re-enqueues arcs after the
  revisions that change no domain. On the two-by-two block with the vocabulary AB, BA
  (all four domains are arc consistent after node consistency) every crossing arc that
  is popped puts another crossing arc into the queue, and the loop never returns.
\<close>

theorem ac3_loops_forever_on_square:
  "ac3 (square [''AB'', ''BA'']) (enforce_node_consistency (init_domains (square [''AB'', ''BA'']))) None = None"
proof -
  have "queue_inv (map fst (overlaps (square [''AB'', ''BA''])))"
    unfolding queue_inv_def square_arcs by (auto simp: square_crossing_def)
  then have "ac3_loop (square [''AB'', ''BA'']) (map fst (overlaps (square [''AB'', ''BA'']))) square_domains = None"
    using ac3_loop_square_never_returns by (cases "ac3_loop (square [''AB'', ''BA'']) (map fst (overlaps (square [''AB'', ''BA'']))) square_domains") auto
  then show ?thesis by (simp add: ac3_def square_domains_def)
qed

subsection \<open>Evaluation on the example puzzles\<close>

lemmas eval_defs = revise_def overlap_lookup_def char_at_def ac3_def ac3_loop.simps
  enforce_node_consistency_def init_domains_def arc_neighbors_def
  assignment_complete_def consistent_def order_domain_values_def select_unassigned_variable_def
  neighbors_def solve_def Let_def

lemmas slot_lengths =
  slot_across_def [THEN arg_cong, of var_length] slot_down_def [THEN arg_cong, of var_length]

lemmas comb_lengths =
  comb_across_def [THEN arg_cong, of var_length] comb_left_def [THEN arg_cong, of var_length]
  comb_right_def [THEN arg_cong, of var_length]

lemma comb_neq:
  "comb_across \<noteq> comb_left" "comb_across \<noteq> comb_right" "comb_left \<noteq> comb_across"
  "comb_left \<noteq> comb_right" "comb_right \<noteq> comb_across" "comb_right \<noteq> comb_left"
  by (simp_all add: comb_across_def comb_left_def comb_right_def)

text \<open>
  C1 claims that every assignment \<open>solve\<close> returns is complete, has words of the right
  lengths, pairwise distinct, and agreeing at every overlap. The source breaks the last
  part: \<open>consistent\<close> never compares the characters at an overlap, so on the two
  crossing slots with the vocabulary AA, BB \<open>solve\<close> returns AA across and BB down,
  although the second letter of the across word must be the first letter of the down
  word.
\<close>

theorem solve_returns_conflicting_words:
  "solve (two_slots [''AA'', ''BB'']) = Some (Inr (Some [(slot_across, ''AA''), (slot_down, ''BB'')]))
   \<and> \<not> spec_consistent (two_slots [''AA'', ''BB'']) [(slot_across, ''AA''), (slot_down, ''BB'')]"
  by (simp add: eval_defs spec_consistent_def words_agree_def two_slots_def slots_distinct slot_lengths)

text \<open>
  C2 claims that \<open>consistent\<close> is true exactly for the assignments with distinct words
  of the right lengths that agree at every overlap of two bound variables. The source
  answers \<open>True\<close> for AA across and BB down on the two crossing slots, where the words
  disagree at the overlap: the branch that compares the characters is never taken.
\<close>

theorem consistent_ignores_overlaps:
  "consistent (two_slots [''AA'', ''BB'']) [(slot_across, ''AA''), (slot_down, ''BB'')] = Inr True
   \<and> \<not> spec_consistent (two_slots [''AA'', ''BB'']) [(slot_across, ''AA''), (slot_down, ''BB'')]"
  by (simp add: eval_defs spec_consistent_def words_agree_def two_slots_def slots_distinct slot_lengths)

text \<open>
  C3 claims that \<open>ac3\<close> returns \<open>False\<close> whenever a domain becomes empty, and that
  \<open>solve\<close> then reports no solution without a search. On the two crossing slots with
  the vocabulary AB, CD no across word has a partner among the down words: both domains
  become empty, and \<open>ac3\<close> returns \<open>True\<close>, since \<open>revise\<close> answers \<open>False\<close> when it
  removes words and \<open>ac3\<close> looks at the domain only after a \<open>True\<close>. \<open>solve\<close> still
  reports no solution, out of the search that it runs whatever \<open>ac3\<close> returned.
\<close>

theorem ac3_misses_emptied_domains:
  "ac3 (two_slots [''AB'', ''CD'']) (enforce_node_consistency (init_domains (two_slots [''AB'', ''CD'']))) None
     = Some (Inr (True, [slot_across \<mapsto> [], slot_down \<mapsto> []]))
   \<and> solve (two_slots [''AB'', ''CD'']) = Some (Inr None)"
  by (simp add: eval_defs two_slots_def slots_distinct fun_eq_iff slot_lengths)

text \<open>
  C4 claims that \<open>revise\<close> returns \<open>True\<close> exactly when it removed a word from the
  domain of \<open>x\<close>. The source returns the opposite: \<open>False\<close> on the two crossing slots
  when CD and BX leave the across domain, and \<open>True\<close> when the call is repeated and
  nothing is left to remove.
\<close>

theorem revise_flag_inverted:
  "revise (two_slots [''AB'', ''CD'', ''BX''])
      [slot_across \<mapsto> [''AB'', ''CD'', ''BX''], slot_down \<mapsto> [''AB'', ''CD'', ''BX'']]
      slot_across slot_down
     = Inr (False, [slot_across \<mapsto> [''AB''], slot_down \<mapsto> [''AB'', ''CD'', ''BX'']])
   \<and> revise (two_slots [''AB'', ''CD'', ''BX''])
      [slot_across \<mapsto> [''AB''], slot_down \<mapsto> [''AB'', ''CD'', ''BX'']]
      slot_across slot_down
     = Inr (True, [slot_across \<mapsto> [''AB''], slot_down \<mapsto> [''AB'', ''CD'', ''BX'']])"
  by (simp add: eval_defs two_slots_def slots_distinct fun_eq_iff)

text \<open>
  C6 claims that \<open>select_unassigned_variable\<close> returns an unassigned variable with a
  smallest domain, and among those one with the most neighbors. On a tie of the two
  smallest domains the source takes the variable of highest degree among all unassigned
  variables. On the comb with the vocabulary AB, ABA, ACA the two down slots have one
  candidate each and the across slot two; these are the domains that \<open>solve\<close> hands to
  the search, and the first variable selected is the across slot.
\<close>

theorem select_prefers_degree_over_domain_size:
  "ac3 (comb [''AB'', ''ABA'', ''ACA''])
      (enforce_node_consistency (init_domains (comb [''AB'', ''ABA'', ''ACA'']))) None
     = Some (Inr (True, [comb_left \<mapsto> [''AB''], comb_right \<mapsto> [''AB''], comb_across \<mapsto> [''ABA'', ''ACA'']]))
   \<and> select_unassigned_variable (comb [''AB'', ''ABA'', ''ACA''])
      [comb_left \<mapsto> [''AB''], comb_right \<mapsto> [''AB''], comb_across \<mapsto> [''ABA'', ''ACA'']] []
     = Inr comb_across"
  by (simp add: eval_defs comb_def comb_neq fun_eq_iff comb_lengths)

subsection \<open>Monotone pruning\<close>

lemma domains_shrink_refl: "domains_shrink d d"
  by (simp add: domains_shrink_def split: option.splits)

lemma domains_shrink_trans:
  "domains_shrink d1 d2 \<Longrightarrow> domains_shrink d2 d3 \<Longrightarrow> domains_shrink d1 d3"
  unfolding domains_shrink_def
proof
  fix v
  assume a: "\<forall>v. case d1 v of None \<Rightarrow> d2 v = None
          | Some ws \<Rightarrow> (case d2 v of None \<Rightarrow> False | Some ws' \<Rightarrow> set ws' \<subseteq> set ws \<and> length ws' \<le> length ws)"
    and b: "\<forall>v. case d2 v of None \<Rightarrow> d3 v = None
          | Some ws \<Rightarrow> (case d3 v of None \<Rightarrow> False | Some ws' \<Rightarrow> set ws' \<subseteq> set ws \<and> length ws' \<le> length ws)"
  from a [rule_format, of v] b [rule_format, of v]
  show "case d1 v of None \<Rightarrow> d3 v = None
          | Some ws \<Rightarrow> (case d3 v of None \<Rightarrow> False | Some ws' \<Rightarrow> set ws' \<subseteq> set ws \<and> length ws' \<le> length ws)"
    by (auto split: option.splits)
qed

lemma domains_shrink_update:
  "d x = Some xs \<Longrightarrow> set zs \<subseteq> set xs \<Longrightarrow> length zs \<le> length xs \<Longrightarrow> domains_shrink d (d(x \<mapsto> zs))"
  by (auto simp: domains_shrink_def split: option.splits)

lemma enforce_node_consistency_shrinks: "domains_shrink d (enforce_node_consistency d)"
  by (auto simp: domains_shrink_def enforce_node_consistency_def split: option.splits)

lemma revise_loop_sublist:
  "revise_loop i j xs dy (acc, f) = Inr (acc', f') \<Longrightarrow>
     \<exists>zs. acc' = acc @ zs \<and> set zs \<subseteq> set xs \<and> length zs \<le> length xs"
proof (induction xs arbitrary: acc f)
  case Nil
  then show ?case by simp
next
  case (Cons w xs)
  from Cons.prems obtain ys where dy: "dy = Some ys"
    by (cases dy) auto
  from Cons.prems dy obtain b where b: "has_value w i j ys = Inr b"
    by (auto split: sum.splits)
  show ?case
  proof (cases b)
    case True
    with b dy Cons.prems have "revise_loop i j xs dy (acc @ [w], f) = Inr (acc', f')" by simp
    from Cons.IH [OF this] obtain zs where "acc' = (acc @ [w]) @ zs" "set zs \<subseteq> set xs" "length zs \<le> length xs"
      by blast
    then have "acc' = acc @ (w # zs) \<and> set (w # zs) \<subseteq> set (w # xs) \<and> length (w # zs) \<le> length (w # xs)"
      by auto
    then show ?thesis by blast
  next
    case False
    with b dy Cons.prems have "revise_loop i j xs dy (acc, False) = Inr (acc', f')" by simp
    from Cons.IH [OF this] obtain zs where "acc' = acc @ zs" "set zs \<subseteq> set xs" "length zs \<le> length xs"
      by blast
    then have "acc' = acc @ zs \<and> set zs \<subseteq> set (w # xs) \<and> length zs \<le> length (w # xs)"
      by auto
    then show ?thesis by blast
  qed
qed

lemma revise_shrinks:
  assumes "revise cw d x y = Inr (b, d')"
  shows "domains_shrink d d'"
proof (cases "overlap_lookup cw x y")
  case (Inl e)
  with assms show ?thesis by (simp add: revise_def)
next
  case (Inr ov)
  show ?thesis
  proof (cases ov)
    case None
    with Inr assms have "d' = d" by (simp add: revise_def)
    then show ?thesis by (simp add: domains_shrink_refl)
  next
    case (Some ij)
    obtain i j where ij: "ij = (i, j)" by (cases ij)
    from assms Inr Some ij obtain xs where xs: "d x = Some xs"
      by (cases "d x") (auto simp: revise_def)
    from assms Inr Some ij xs obtain cd rm
      where loop: "revise_loop i j xs (d y) ([], True) = Inr (cd, rm)" and d': "d' = d(x \<mapsto> cd)"
      by (auto simp: revise_def split: sum.splits)
    from revise_loop_sublist [OF loop] have "set cd \<subseteq> set xs" "length cd \<le> length xs"
      by auto
    with xs d' show ?thesis by (simp add: domains_shrink_update)
  qed
qed

lemma ac3_loop_shrinks:
  assumes "ac3_loop cw q d = Some r"
  shows "r = Inr (b, d') \<Longrightarrow> domains_shrink d d'"
  using assms
proof (induction cw q d r rule: ac3_loop.raw_induct [rotated 1, consumes 1, case_names step])
  case (step loop cw q d r)
  note IH = step(1) and body = step(2) and r = step(3)
  show ?case
  proof (cases q)
    case Nil
    with body r show ?thesis by (simp add: domains_shrink_refl)
  next
    case (Cons a rest)
    obtain x y where a: "a = (x, y)" by (cases a)
    from body Cons a obtain revised d1 where rv: "revise cw d x y = Inr (revised, d1)"
      by (cases "revise cw d x y") (auto simp: r)
    from revise_shrinks [OF rv] have s1: "domains_shrink d d1" .
    show ?thesis
    proof (cases revised)
      case False
      with body Cons a rv have "loop cw rest d1 = Some r" by simp
      from IH [OF this r] s1 show ?thesis by (rule domains_shrink_trans [rotated])
    next
      case True
      show ?thesis
      proof (cases "d1 x")
        case None
        with body Cons a rv True r show ?thesis by simp
      next
        case (Some ws)
        show ?thesis
        proof (cases "ws = []")
          case True
          with body Cons a rv \<open>revised\<close> Some r have "d' = d1" by simp
          with s1 show ?thesis by simp
        next
          case False
          with body Cons a rv \<open>revised\<close> Some
          have "loop cw (rest @ map (\<lambda>neighbor. (neighbor, x)) (arc_neighbors cw x y)) d1 = Some r"
            by simp
          from IH [OF this r] s1 show ?thesis by (rule domains_shrink_trans [rotated])
        qed
      qed
    qed
  qed
qed

text \<open>
  C9: within one \<open>solve\<close>, every operation on the domain store only shrinks it: after
  node consistency, after every \<open>revise\<close> that returns, and after the whole of \<open>ac3\<close>
  (any sequence of \<open>revise\<close> calls), every variable keeps its key and its domain is a
  subset of the former one, with no more entries.
\<close>

theorem domains_only_shrink:
  "domains_shrink d (enforce_node_consistency d)
   \<and> (\<forall>b d'. revise cw d x y = Inr (b, d') \<longrightarrow> domains_shrink d d')
   \<and> (\<forall>b d'. ac3 cw d arcs = Some (Inr (b, d')) \<longrightarrow> domains_shrink d d')"
proof (intro conjI allI impI)
  show "domains_shrink d (enforce_node_consistency d)"
    by (rule enforce_node_consistency_shrinks)
next
  fix b d'
  assume "revise cw d x y = Inr (b, d')"
  then show "domains_shrink d d'" by (rule revise_shrinks)
next
  fix b d'
  assume "ac3 cw d arcs = Some (Inr (b, d'))"
  then obtain q where "ac3_loop cw q d = Some (Inr (b, d'))"
    by (auto simp: ac3_def split: option.splits if_splits)
  then show "domains_shrink d d'" by (rule ac3_loop_shrinks) simp
qed

theorem domains_only_shrink_witness:
  "ac3 (two_slots [''AB'', ''CD'']) (enforce_node_consistency (init_domains (two_slots [''AB'', ''CD'']))) None
     = Some (Inr (True, [slot_across \<mapsto> [], slot_down \<mapsto> []]))
   \<and> revise (two_slots [''AB'', ''CD'', ''BX''])
      [slot_across \<mapsto> [''AB'', ''CD'', ''BX''], slot_down \<mapsto> [''AB'', ''CD'', ''BX'']]
      slot_across slot_down
     = Inr (False, [slot_across \<mapsto> [''AB''], slot_down \<mapsto> [''AB'', ''CD'', ''BX'']])
   \<and> domains_shrink (enforce_node_consistency (init_domains (two_slots [''AB'', ''CD''])))
        [slot_across \<mapsto> [], slot_down \<mapsto> []]
   \<and> domains_shrink [slot_across \<mapsto> [''AB'', ''CD'', ''BX''], slot_down \<mapsto> [''AB'', ''CD'', ''BX'']]
        [slot_across \<mapsto> [''AB''], slot_down \<mapsto> [''AB'', ''CD'', ''BX'']]"
proof -
  have a: "ac3 (two_slots [''AB'', ''CD'']) (enforce_node_consistency (init_domains (two_slots [''AB'', ''CD'']))) None
     = Some (Inr (True, [slot_across \<mapsto> [], slot_down \<mapsto> []]))"
    by (simp add: eval_defs two_slots_def slots_distinct fun_eq_iff slot_lengths)
  have r: "revise (two_slots [''AB'', ''CD'', ''BX''])
      [slot_across \<mapsto> [''AB'', ''CD'', ''BX''], slot_down \<mapsto> [''AB'', ''CD'', ''BX'']]
      slot_across slot_down
     = Inr (False, [slot_across \<mapsto> [''AB''], slot_down \<mapsto> [''AB'', ''CD'', ''BX'']])"
    by (simp add: eval_defs two_slots_def slots_distinct fun_eq_iff)
  from domains_only_shrink [THEN conjunct2, THEN conjunct2, rule_format, OF a]
    domains_only_shrink [THEN conjunct2, THEN conjunct1, rule_format, OF r] a r
  show ?thesis by blast
qed

subsection \<open>An empty list of arcs\<close>

lemma supported_mono: "supported i j ys1 w \<Longrightarrow> set ys1 \<subseteq> set ys \<Longrightarrow> supported i j ys w"
  by (auto simp: supported_def)

lemma arc_propagated_from_larger:
  assumes "arc_propagated cw d1 d' a" and "domains_shrink d d1"
  shows "arc_propagated cw d d' a"
  unfolding arc_propagated_def
proof (intro allI impI ballI)
  fix i j ys ws' w
  assume h: "map_of (overlaps cw) a = Some (Some (i, j)) \<and> d (snd a) = Some ys \<and> d' (fst a) = Some ws'"
    and w: "w \<in> set ws'"
  from assms(2) h obtain ys1 where ys1: "d1 (snd a) = Some ys1" "set ys1 \<subseteq> set ys"
    by (auto simp: domains_shrink_def split: option.splits dest!: spec [of _ "snd a"])
  with assms(1) h w have "supported i j ys1 w"
    by (auto simp: arc_propagated_def)
  with ys1 show "supported i j ys w" by (auto intro: supported_mono)
qed

lemma arc_propagated_head:
  assumes "revise cw d x y = Inr (b1, d1)" and "domains_shrink d1 d'"
  shows "arc_propagated cw d d' (x, y)"
  unfolding arc_propagated_def
proof (intro allI impI ballI)
  fix i j ys ws' w
  assume h: "map_of (overlaps cw) (x, y) = Some (Some (i, j)) \<and> d (snd (x, y)) = Some ys
      \<and> d' (fst (x, y)) = Some ws'"
    and w: "w \<in> set ws'"
  from assms(1) h obtain xs where xs: "d x = Some xs"
    by (cases "d x") (auto simp: revise_def overlap_lookup_def)
  from assms(1) h xs obtain cd where
    loop: "revise_loop i j xs (Some ys) ([], True) = Inr (cd, b1)" and d1: "d1 = d(x \<mapsto> cd)"
    by (auto simp: revise_def overlap_lookup_def split: sum.splits)
  from revise_loop_Inr [OF loop] have cd: "cd = filter (supported i j ys) xs" by simp
  from assms(2) d1 h have "set ws' \<subseteq> set cd"
    by (auto simp: domains_shrink_def split: option.splits dest!: spec [of _ x])
  with w cd show "supported i j ys w" by auto
qed

lemma ac3_loop_propagates:
  assumes "ac3_loop cw q d = Some r"
  shows "r = Inr (b, d') \<Longrightarrow>
     domains_shrink d d' \<and> (b \<longrightarrow> (\<forall>a \<in> set q. arc_propagated cw d d' a))"
  using assms
proof (induction cw q d r rule: ac3_loop.raw_induct [rotated 1, consumes 1, case_names step])
  case (step loop cw q d r)
  note IH = step(1) and body = step(2) and r = step(3)
  show ?case
  proof (cases q)
    case Nil
    with body r show ?thesis by (simp add: domains_shrink_refl)
  next
    case (Cons a rest)
    obtain x y where a: "a = (x, y)" by (cases a)
    from body Cons a obtain revised d1 where rv: "revise cw d x y = Inr (revised, d1)"
      by (cases "revise cw d x y") (auto simp: r)
    from revise_shrinks [OF rv] have s1: "domains_shrink d d1" .
    have continue: "domains_shrink d d' \<and> (b \<longrightarrow> (\<forall>a \<in> set q. arc_propagated cw d d' a))"
      if call: "loop cw q' d1 = Some r" and sub: "set rest \<subseteq> set q'" for q'
    proof -
      from IH [OF call r] have s2: "domains_shrink d1 d'"
        and p: "b \<longrightarrow> (\<forall>a \<in> set q'. arc_propagated cw d1 d' a)"
        by simp_all
      from s1 s2 have s: "domains_shrink d d'" by (rule domains_shrink_trans)
      have "arc_propagated cw d d' a'" if b and "a' \<in> set q" for a'
      proof (cases "a' = (x, y)")
        case True
        with arc_propagated_head [OF rv s2] show ?thesis by simp
      next
        case False
        with \<open>a' \<in> set q\<close> Cons a sub have "a' \<in> set q'" by auto
        with p \<open>b\<close> have "arc_propagated cw d1 d' a'" by simp
        then show ?thesis using s1 by (rule arc_propagated_from_larger)
      qed
      with s show ?thesis by simp
    qed
    show ?thesis
    proof (cases revised)
      case False
      with body Cons a rv have "loop cw rest d1 = Some r" by simp
      then show ?thesis by (rule continue) simp
    next
      case True
      show ?thesis
      proof (cases "d1 x")
        case None
        with body Cons a rv True r show ?thesis by simp
      next
        case (Some ws)
        show ?thesis
        proof (cases "ws = []")
          case True
          with body Cons a rv \<open>revised\<close> Some r have "d' = d1" and "\<not> b" by simp_all
          with s1 show ?thesis by simp
        next
          case False
          with body Cons a rv \<open>revised\<close> Some
          have "loop cw (rest @ map (\<lambda>neighbor. (neighbor, x)) (arc_neighbors cw x y)) d1 = Some r"
            by simp
          then show ?thesis by (rule continue) simp
        qed
      qed
    qed
  qed
qed

text \<open>
  C10: an explicitly supplied empty list of arcs is replaced by the list of all keys
  of the overlap table, as \<open>None\<close> is, so the two calls agree on the result and on the
  domains they leave. The call does not succeed at once: when it reports success,
  every arc of the overlap table has been revised, so for every arc with an overlap the
  words left for its first variable are supported by words that the second variable
  had at the start. On the two crossing slots with the vocabulary AB, BC, CD, XY the
  call with the empty list prunes both domains.
\<close>

theorem ac3_empty_list_as_none:
  "ac3 cw d (Some []) = ac3 cw d None
   \<and> ac3 cw d (Some []) = ac3_loop cw (map fst (overlaps cw)) d
   \<and> (\<forall>d'. ac3 cw d (Some []) = Some (Inr (True, d')) \<longrightarrow>
         domains_shrink d d' \<and> (\<forall>a \<in> set (map fst (overlaps cw)). arc_propagated cw d d' a))
   \<and> ac3 (two_slots [''AB'', ''BC'', ''CD'', ''XY''])
        [slot_across \<mapsto> [''AB'', ''BC'', ''CD'', ''XY''], slot_down \<mapsto> [''AB'', ''BC'', ''CD'', ''XY'']]
        (Some [])
      = Some (Inr (True, [slot_across \<mapsto> [''AB'', ''BC''], slot_down \<mapsto> [''BC'', ''CD'']]))"
proof (intro conjI allI impI)
  show "ac3 cw d (Some []) = ac3 cw d None"
    by (simp add: ac3_def)
  show eq: "ac3 cw d (Some []) = ac3_loop cw (map fst (overlaps cw)) d"
    by (simp add: ac3_def)
  show "ac3 (two_slots [''AB'', ''BC'', ''CD'', ''XY''])
        [slot_across \<mapsto> [''AB'', ''BC'', ''CD'', ''XY''], slot_down \<mapsto> [''AB'', ''BC'', ''CD'', ''XY'']]
        (Some [])
      = Some (Inr (True, [slot_across \<mapsto> [''AB'', ''BC''], slot_down \<mapsto> [''BC'', ''CD'']]))"
    by (simp add: eval_defs two_slots_def slots_distinct fun_eq_iff)
  fix d'
  assume "ac3 cw d (Some []) = Some (Inr (True, d'))"
  with eq have "ac3_loop cw (map fst (overlaps cw)) d = Some (Inr (True, d'))" by simp
  from ac3_loop_propagates [OF this refl]
  show "domains_shrink d d'" and "\<forall>a \<in> set (map fst (overlaps cw)). arc_propagated cw d d' a"
    by simp_all
qed

theorem ac3_empty_list_as_none_witness:
  "ac3 (two_slots [''AB'', ''BC'', ''CD'', ''XY''])
        [slot_across \<mapsto> [''AB'', ''BC'', ''CD'', ''XY''], slot_down \<mapsto> [''AB'', ''BC'', ''CD'', ''XY'']]
        (Some [])
      = Some (Inr (True, [slot_across \<mapsto> [''AB'', ''BC''], slot_down \<mapsto> [''BC'', ''CD'']]))
   \<and> arc_propagated (two_slots [''AB'', ''BC'', ''CD'', ''XY''])
        [slot_across \<mapsto> [''AB'', ''BC'', ''CD'', ''XY''], slot_down \<mapsto> [''AB'', ''BC'', ''CD'', ''XY'']]
        [slot_across \<mapsto> [''AB'', ''BC''], slot_down \<mapsto> [''BC'', ''CD'']]
        (slot_across, slot_down)
   \<and> supported 1 0 [''AB'', ''BC'', ''CD'', ''XY''] ''AB''
   \<and> supported 1 0 [''AB'', ''BC'', ''CD'', ''XY''] ''BC''
   \<and> \<not> supported 1 0 [''AB'', ''BC'', ''CD'', ''XY''] ''CD''
   \<and> \<not> supported 1 0 [''AB'', ''BC'', ''CD'', ''XY''] ''XY''"
proof -
  let ?cw = "two_slots [''AB'', ''BC'', ''CD'', ''XY'']"
  let ?d = "[slot_across \<mapsto> [''AB'', ''BC'', ''CD'', ''XY''], slot_down \<mapsto> [''AB'', ''BC'', ''CD'', ''XY'']]"
  let ?d' = "[slot_across \<mapsto> [''AB'', ''BC''], slot_down \<mapsto> [''BC'', ''CD'']]"
  note inst = ac3_empty_list_as_none [where cw = ?cw and d = ?d]
  from inst have run: "ac3 ?cw ?d (Some []) = Some (Inr (True, ?d'))"
    by (elim conjE)
  from inst have "\<forall>d'. ac3 ?cw ?d (Some []) = Some (Inr (True, d')) \<longrightarrow>
         domains_shrink ?d d' \<and> (\<forall>a \<in> set (map fst (overlaps ?cw)). arc_propagated ?cw ?d d' a)"
    by (elim conjE)
  with run have all: "\<forall>a \<in> set (map fst (overlaps ?cw)). arc_propagated ?cw ?d ?d' a"
    by blast
  have "(slot_across, slot_down) \<in> set (map fst (overlaps ?cw))"
    by (simp add: two_slots_def)
  with all have p: "arc_propagated ?cw ?d ?d' (slot_across, slot_down)" by blast
  have s: "supported 1 0 [''AB'', ''BC'', ''CD'', ''XY''] ''AB''"
    "supported 1 0 [''AB'', ''BC'', ''CD'', ''XY''] ''BC''"
    "\<not> supported 1 0 [''AB'', ''BC'', ''CD'', ''XY''] ''CD''"
    "\<not> supported 1 0 [''AB'', ''BC'', ''CD'', ''XY''] ''XY''"
    by (simp_all add: supported_def)
  from run p s show ?thesis by blast
qed

subsection \<open>Least-constraining-value ordering\<close>

lemma map_of_tab: "k \<in> set ks \<Longrightarrow> map_of (tab c ks) k = Some (c k)"
  by (induction ks) (auto simp: tab_def)

lemma update_tab:
  "distinct ks \<Longrightarrow> k \<in> set ks \<Longrightarrow> AList.update k v (tab c ks) = tab (c(k := v)) ks"
  by (induction ks) (auto simp: tab_def)

lemma fold_update_tab:
  "distinct (ks @ ws) \<Longrightarrow>
     fold (\<lambda>word num. AList.update word 0 num) ws (tab (\<lambda>_. 0) ks) = tab (\<lambda>_. 0) (ks @ ws)"
proof (induction ws arbitrary: ks)
  case Nil
  then show ?case by simp
next
  case (Cons w ws)
  from Cons.prems have "w \<notin> set ks" by auto
  then have "AList.update w 0 (tab (\<lambda>_. 0) ks) = tab (\<lambda>_. 0) (ks @ [w])"
    by (induction ks) (auto simp: tab_def)
  moreover from Cons.prems have "distinct ((ks @ [w]) @ ws)" by auto
  ultimately show ?case using Cons.IH [of "ks @ [w]"] by simp
qed

lemma init_tab: "distinct ws \<Longrightarrow> fold (\<lambda>word num. AList.update word 0 num) ws [] = tab (\<lambda>_. 0) ws"
  using fold_update_tab [of "[]" ws] by (simp add: tab_def)

lemma eliminate_words_Inr:
  "eliminate_words w ov ws (tab c ks) = Inr num' \<Longrightarrow> distinct ks \<Longrightarrow> w \<in> set ks \<Longrightarrow>
     num' = tab (c(w := c w + conflicting ov w ws)) ks"
proof (induction ws arbitrary: c)
  case Nil
  have "conflicting ov w [] = 0"
    by (simp add: conflicting_def split: option.splits)
  then have "c(w := c w + conflicting ov w []) = c"
    by simp
  with Nil show ?case by simp
next
  case (Cons w2 ws)
  from Cons.prems(1) obtain i j where ov: "ov = Some (i, j)"
    by (cases ov) auto
  from Cons.prems(1) ov have i: "i < length w" and j: "j < length w2"
    by (auto simp: char_at_def split: if_splits)
  show ?case
  proof (cases "w ! i = w2 ! j")
    case True
    with Cons.prems(1) ov i j have "eliminate_words w ov ws (tab c ks) = Inr num'"
      by (simp add: char_at_def)
    from Cons.IH [OF this Cons.prems(2,3)]
    have "num' = tab (c(w := c w + conflicting ov w ws)) ks" .
    moreover from True ov have "conflicting ov w (w2 # ws) = conflicting ov w ws"
      by (simp add: conflicting_def)
    ultimately show ?thesis by (simp only:)
  next
    case False
    with Cons.prems ov i j
    have "eliminate_words w ov ws (tab (c(w := c w + 1)) ks) = Inr num'"
      by (simp add: char_at_def map_of_tab update_tab)
    from Cons.IH [OF this Cons.prems(2,3)]
    have "num' = tab ((c(w := c w + 1))(w := (c(w := c w + 1)) w + conflicting ov w ws)) ks" .
    moreover from False ov
    have "(c(w := c w + 1))(w := (c(w := c w + 1)) w + conflicting ov w ws)
        = c(w := c w + conflicting ov w (w2 # ws))"
      by (simp add: conflicting_def fun_eq_iff)
    ultimately show ?thesis by (simp only:)
  qed
qed

lemma eliminate_words_total:
  "i < length w \<Longrightarrow> \<forall>w2 \<in> set ws. j < length w2 \<Longrightarrow> distinct ks \<Longrightarrow> w \<in> set ks \<Longrightarrow>
     \<exists>num'. eliminate_words w (Some (i, j)) ws (tab c ks) = Inr num'"
proof (induction ws arbitrary: c)
  case Nil
  then show ?case by simp
next
  case (Cons w2 ws)
  then show ?case
    by (cases "w ! i = w2 ! j") (simp_all add: char_at_def map_of_tab update_tab)
qed

lemma eliminate_neighbors_Inr:
  "eliminate_neighbors cw d var w ns (tab c ks) = Inr num' \<Longrightarrow> distinct ks \<Longrightarrow> w \<in> set ks \<Longrightarrow>
     num' = tab (c(w := c w + sum_list (map (eliminated_at cw d var w) ns))) ks"
proof (induction ns arbitrary: c)
  case Nil
  then show ?case by simp
next
  case (Cons n ns)
  from Cons.prems(1) obtain ov where ov: "map_of (overlaps cw) (var, n) = Some ov"
    by (cases "map_of (overlaps cw) (var, n)") (auto simp: overlap_lookup_def)
  from Cons.prems(1) ov obtain ws where ws: "d n = Some ws"
    by (cases "d n") (auto simp: overlap_lookup_def)
  from Cons.prems(1) ov ws obtain num1 where
    n1: "eliminate_words w ov ws (tab c ks) = Inr num1"
    and rest: "eliminate_neighbors cw d var w ns num1 = Inr num'"
    by (auto simp: overlap_lookup_def split: sum.splits)
  from eliminate_words_Inr [OF n1 Cons.prems(2,3)]
  have num1: "num1 = tab (c(w := c w + conflicting ov w ws)) ks" .
  let ?k1 = "conflicting ov w ws" and ?k2 = "sum_list (map (eliminated_at cw d var w) ns)"
  let ?c1 = "c(w := c w + ?k1)"
  from Cons.IH [OF rest [unfolded num1] Cons.prems(2,3)]
  have "num' = tab (?c1(w := ?c1 w + ?k2)) ks" .
  moreover have "?c1(w := ?c1 w + ?k2)
      = c(w := c w + sum_list (map (eliminated_at cw d var w) (n # ns)))"
    using ov ws by (simp add: eliminated_at_def fun_eq_iff)
  ultimately show ?case by (simp only:)
qed

lemma eliminate_domain_Inr:
  "eliminate_domain cw d var wds ns (tab c ks) = Inr num' \<Longrightarrow> distinct ks \<Longrightarrow> set wds \<subseteq> set ks \<Longrightarrow>
   distinct wds \<Longrightarrow>
     num' = tab (\<lambda>k. if k \<in> set wds then c k + sum_list (map (eliminated_at cw d var k) ns) else c k) ks"
proof (induction wds arbitrary: c)
  case Nil
  then show ?case by simp
next
  case (Cons w wds)
  from Cons.prems(1) obtain num1 where
    n1: "eliminate_neighbors cw d var w ns (tab c ks) = Inr num1"
    and rest: "eliminate_domain cw d var wds ns num1 = Inr num'"
    by (auto split: sum.splits)
  from Cons.prems have w: "w \<in> set ks" and sub: "set wds \<subseteq> set ks" and dw: "distinct wds"
    and nw: "w \<notin> set wds"
    by auto
  from eliminate_neighbors_Inr [OF n1 Cons.prems(2) w]
  have num1: "num1 = tab (c(w := c w + sum_list (map (eliminated_at cw d var w) ns))) ks" .
  from Cons.IH [OF rest [unfolded num1] Cons.prems(2) sub dw]
  have "num' = tab (\<lambda>k. if k \<in> set wds
            then (c(w := c w + sum_list (map (eliminated_at cw d var w) ns))) k
                 + sum_list (map (eliminated_at cw d var k) ns)
            else (c(w := c w + sum_list (map (eliminated_at cw d var w) ns))) k) ks" .
  also have "(\<lambda>k. if k \<in> set wds
            then (c(w := c w + sum_list (map (eliminated_at cw d var w) ns))) k
                 + sum_list (map (eliminated_at cw d var k) ns)
            else (c(w := c w + sum_list (map (eliminated_at cw d var w) ns))) k)
      = (\<lambda>k. if k \<in> set (w # wds) then c k + sum_list (map (eliminated_at cw d var k) ns) else c k)"
    using nw by (auto simp: fun_eq_iff)
  finally show ?case .
qed

lemma sorted_tab:
  "map fst (sort_key snd (tab c ks)) = res \<Longrightarrow> mset res = mset ks \<and> sorted (map c res)"
proof -
  assume r: "map fst (sort_key snd (tab c ks)) = res"
  have "mset res = image_mset fst (mset (sort_key snd (tab c ks)))"
    using r by auto
  also have "\<dots> = mset ks"
    by (simp add: tab_def image_mset.compositionality comp_def)
  finally have m: "mset res = mset ks" .
  have "\<forall>p \<in> set (sort_key snd (tab c ks)). snd p = c (fst p)"
    by (auto simp: tab_def)
  then have "map c (map fst (sort_key snd (tab c ks))) = map snd (sort_key snd (tab c ks))"
    by (induction "sort_key snd (tab c ks)") auto
  with r have "map c res = map snd (sort_key snd (tab c ks))" by simp
  then have "sorted (map c res)" by (simp add: sorted_sort_key)
  with m show ?thesis by simp
qed

lemma eliminate_neighbors_total:
  "\<forall>n \<in> set ns. \<exists>i j wsn. map_of (overlaps cw) (var, n) = Some (Some (i, j)) \<and> d n = Some wsn
        \<and> i < length w \<and> (\<forall>w2 \<in> set wsn. j < length w2) \<Longrightarrow>
   distinct ks \<Longrightarrow> w \<in> set ks \<Longrightarrow>
     \<exists>num'. eliminate_neighbors cw d var w ns (tab c ks) = Inr num'"
proof (induction ns arbitrary: c)
  case Nil
  then show ?case by simp
next
  case (Cons n ns)
  from Cons.prems(1) obtain i j wsn where
    ov: "map_of (overlaps cw) (var, n) = Some (Some (i, j))" and wsn: "d n = Some wsn"
    and i: "i < length w" and j: "\<forall>w2 \<in> set wsn. j < length w2"
    by auto
  from eliminate_words_total [OF i j Cons.prems(2,3)] obtain num1
    where n1: "eliminate_words w (Some (i, j)) wsn (tab c ks) = Inr num1"
    by blast
  from eliminate_words_Inr [OF n1 Cons.prems(2,3)] obtain c1 where c1: "num1 = tab c1 ks"
    by blast
  from Cons.prems(1) have "\<forall>n \<in> set ns. \<exists>i j wsn. map_of (overlaps cw) (var, n) = Some (Some (i, j))
        \<and> d n = Some wsn \<and> i < length w \<and> (\<forall>w2 \<in> set wsn. j < length w2)"
    by simp
  from Cons.IH [OF this Cons.prems(2,3), of c1] ov wsn n1 c1 show ?case
    by (simp add: overlap_lookup_def)
qed

lemma eliminate_domain_total:
  "\<forall>n \<in> set ns. \<exists>i j wsn. map_of (overlaps cw) (var, n) = Some (Some (i, j)) \<and> d n = Some wsn
        \<and> (\<forall>w \<in> set wds. i < length w) \<and> (\<forall>w2 \<in> set wsn. j < length w2) \<Longrightarrow>
   distinct ks \<Longrightarrow> set wds \<subseteq> set ks \<Longrightarrow>
     \<exists>num'. eliminate_domain cw d var wds ns (tab c ks) = Inr num'"
proof (induction wds arbitrary: c)
  case Nil
  then show ?case by simp
next
  case (Cons w wds)
  from Cons.prems(3) have w: "w \<in> set ks" and sub: "set wds \<subseteq> set ks" by auto
  from Cons.prems(1) have "\<forall>n \<in> set ns. \<exists>i j wsn. map_of (overlaps cw) (var, n) = Some (Some (i, j))
        \<and> d n = Some wsn \<and> i < length w \<and> (\<forall>w2 \<in> set wsn. j < length w2)"
    by fastforce
  from eliminate_neighbors_total [OF this Cons.prems(2) w] obtain num1
    where n1: "eliminate_neighbors cw d var w ns (tab c ks) = Inr num1"
    by blast
  from eliminate_neighbors_Inr [OF n1 Cons.prems(2) w] obtain c1 where c1: "num1 = tab c1 ks"
    by blast
  from Cons.prems(1) have "\<forall>n \<in> set ns. \<exists>i j wsn. map_of (overlaps cw) (var, n) = Some (Some (i, j))
        \<and> d n = Some wsn \<and> (\<forall>w \<in> set wds. i < length w) \<and> (\<forall>w2 \<in> set wsn. j < length w2)"
    by fastforce
  from Cons.IH [OF this Cons.prems(2) sub, of c1] n1 c1 show ?case
    by simp
qed

text \<open>
  C8: \<open>order_domain_values\<close> returns the words of the domain of \<open>var\<close> (a set, so
  without duplicates), each once, in ascending order of the number of candidates they
  eliminate from the domains of the unassigned neighbors of \<open>var\<close>; and it does return
  when every unassigned neighbor has a domain and an overlap with \<open>var\<close> whose offsets
  lie inside the words of the two domains.
\<close>

theorem order_domain_values_least_constraining_first:
  assumes "d var = Some ws" and "distinct ws"
  shows "(\<forall>res. order_domain_values cw d var a = Inr res \<longrightarrow>
            mset res = mset ws \<and> sorted (map (eliminated cw d a var) res))
       \<and> ((\<forall>n \<in> set (filter (\<lambda>n. n \<notin> fst ` set a) (neighbors cw var)).
             \<exists>i j wsn. map_of (overlaps cw) (var, n) = Some (Some (i, j)) \<and> d n = Some wsn
               \<and> (\<forall>w \<in> set ws. i < length w) \<and> (\<forall>w2 \<in> set wsn. j < length w2))
            \<longrightarrow> (\<exists>res. order_domain_values cw d var a = Inr res))"
proof (rule conjI; intro allI impI)
  fix res
  let ?ns = "filter (\<lambda>n. n \<notin> fst ` set a) (neighbors cw var)"
  let ?c = "\<lambda>k. if k \<in> set ws then (0::nat) + sum_list (map (eliminated_at cw d var k) ?ns) else 0"
  assume "order_domain_values cw d var a = Inr res"
  with assms obtain num where
    num: "eliminate_domain cw d var ws ?ns (tab (\<lambda>_. 0) ws) = Inr num"
    and res: "map fst (sort_key snd num) = res"
    by (auto simp: order_domain_values_def init_tab split: sum.splits)
  from eliminate_domain_Inr [OF num assms(2) subset_refl assms(2)]
  have "num = tab ?c ws" .
  with res have "map fst (sort_key snd (tab ?c ws)) = res" by simp
  from sorted_tab [OF this] have m: "mset res = mset ws" and s: "sorted (map ?c res)"
    by simp_all
  from m have "set res = set ws" by (rule mset_eq_setD)
  then have "map ?c res = map (eliminated cw d a var) res"
    by (simp add: eliminated_def)
  with s m show "mset res = mset ws \<and> sorted (map (eliminated cw d a var) res)"
    by simp
next
  let ?ns = "filter (\<lambda>n. n \<notin> fst ` set a) (neighbors cw var)"
  assume "\<forall>n \<in> set ?ns.
             \<exists>i j wsn. map_of (overlaps cw) (var, n) = Some (Some (i, j)) \<and> d n = Some wsn
               \<and> (\<forall>w \<in> set ws. i < length w) \<and> (\<forall>w2 \<in> set wsn. j < length w2)"
  from eliminate_domain_total [OF this assms(2) subset_refl, of "\<lambda>_. 0"] obtain num
    where "eliminate_domain cw d var ws ?ns (tab (\<lambda>_. 0) ws) = Inr num"
    by blast
  with assms show "\<exists>res. order_domain_values cw d var a = Inr res"
    by (simp add: order_domain_values_def init_tab)
qed

theorem order_domain_values_least_constraining_first_witness:
  "order_domain_values (two_slots [])
      [slot_across \<mapsto> [''XA'', ''AB''], slot_down \<mapsto> [''BX'', ''BY'', ''AZ'']] slot_across []
     = Inr [''AB'', ''XA'']
   \<and> mset [''AB'', ''XA''] = mset [''XA'', ''AB'']
   \<and> sorted (map (eliminated (two_slots [])
        [slot_across \<mapsto> [''XA'', ''AB''], slot_down \<mapsto> [''BX'', ''BY'', ''AZ'']] [] slot_across)
        [''AB'', ''XA''])"
proof -
  let ?d = "[slot_across \<mapsto> [''XA'', ''AB''], slot_down \<mapsto> [''BX'', ''BY'', ''AZ'']]"
  have h1: "?d slot_across = Some [''XA'', ''AB'']"
    by (simp add: slots_distinct)
  have h2: "distinct [''XA'', ''AB'']"
    by simp
  have e: "order_domain_values (two_slots []) ?d slot_across [] = Inr [''AB'', ''XA'']"
    by (simp add: eval_defs two_slots_def slots_distinct)
  from order_domain_values_least_constraining_first
         [where d = "?d" and var = slot_across and cw = "two_slots []" and a = "[]",
          OF h1 h2, THEN conjunct1, rule_format, OF e] e
  show ?thesis by simp
qed

subsection \<open>The search returns\<close>

lemma remaining_values_keys: "remaining_values d vs = Inr r \<Longrightarrow> map fst r = vs"
  by (induction vs arbitrary: r) (auto split: option.splits sum.splits)

lemma select_unassigned_variable_unassigned:
  assumes "select_unassigned_variable cw d a = Inr var"
  shows "var \<in> set (variables cw) \<and> var \<notin> fst ` set a"
proof -
  let ?un = "filter (\<lambda>v. v \<notin> fst ` set a) (variables cw)"
  let ?degs = "map (\<lambda>v. (v, length (neighbors cw v))) ?un"
  let ?sd = "sort_key (\<lambda>x. - int (snd x)) ?degs"
  from assms obtain r where r: "remaining_values d ?un = Inr r"
    by (cases "remaining_values d ?un") (auto simp: select_unassigned_variable_def)
  have "fst ` set (sort_key snd r) = set (map fst r)" by simp
  also have "\<dots> = set ?un" using remaining_values_keys [OF r] by simp
  finally have keys: "fst ` set (sort_key snd r) = set ?un" .
  have dkeys: "fst ` set ?sd = set ?un"
    by (simp add: image_image)
  from assms r have sel:
    "(case sort_key snd r of [] \<Rightarrow> Inl IndexError | [p] \<Rightarrow> Inr (fst p)
      | p # q # _ \<Rightarrow> if snd p \<noteq> snd q then Inr (fst p)
          else (case ?sd of [] \<Rightarrow> Inl IndexError | r # _ \<Rightarrow> Inr (fst r))) = Inr var"
    unfolding select_unassigned_variable_def Let_def by simp
  have "var \<in> set ?un"
  proof (cases "sort_key snd r")
    case Nil
    with sel show ?thesis by simp
  next
    case (Cons p ps)
    then have p: "fst p \<in> set ?un" using keys by (metis image_eqI list.set_intros(1))
    show ?thesis
    proof (cases "ps = [] \<or> snd p \<noteq> snd (hd ps)")
      case True
      with sel Cons have "var = fst p" by (cases ps) (auto split: if_splits)
      with p show ?thesis by simp
    next
      case False
      then obtain q qs where ps: "ps = q # qs" and eq: "snd p = snd q" by (cases ps) auto
      with sel Cons obtain t ts where sd: "?sd = t # ts" and v: "var = fst t"
        by (cases ?sd) auto
      from sd have "fst t \<in> fst ` set ?sd" by simp
      with dkeys v show ?thesis by simp
    qed
  qed
  then show ?thesis by simp
qed

lemma delete_update_absent:
  "var \<notin> fst ` set a \<Longrightarrow> AList.delete var (AList.update var v a) = a"
  by (induction a) (auto simp: AList.delete_eq)

lemma delete_absent: "var \<notin> fst ` set a \<Longrightarrow> AList.delete var a = a"
  by (induction a) (auto simp: AList.delete_eq)

lemma unassigned_update_less:
  assumes "var \<in> set (variables cw)" and "var \<notin> fst ` set a"
  shows "length (filter (\<lambda>v. v \<notin> fst ` set (AList.update var value a)) (variables cw))
       < length (filter (\<lambda>v. v \<notin> fst ` set a) (variables cw))"
proof -
  let ?un = "filter (\<lambda>v. v \<notin> fst ` set a) (variables cw)"
  have "filter (\<lambda>v. v \<notin> fst ` set (AList.update var value a)) (variables cw)
      = filter (\<lambda>v. v \<noteq> var) ?un"
    by (auto simp: AList.dom_update intro!: filter_cong)
  moreover from assms have "var \<in> set ?un" by simp
  then have "length (filter (\<lambda>v. v \<noteq> var) ?un) < length ?un"
    by (rule length_filter_less) simp
  ultimately show ?thesis by simp
qed

lemma backtrack_values_returns:
  assumes deeper: "\<And>a. length (filter (\<lambda>v. v \<notin> fst ` set a) (variables cw)) < n \<Longrightarrow>
      \<exists>r. backtrack n cw d a = Some r \<and> (\<forall>a'. r = Inr (None, a') \<longrightarrow> a' = a)"
    and var: "var \<in> set (variables cw)" "var \<notin> fst ` set a"
    and n: "length (filter (\<lambda>v. v \<notin> fst ` set a) (variables cw)) \<le> n"
  shows "\<exists>r. backtrack_values n cw d var vals a = Some r \<and> (\<forall>a'. r = Inr (None, a') \<longrightarrow> a' = a)"
proof (induction vals)
  case Nil
  show ?case by simp
next
  case (Cons v vals)
  let ?a1 = "AList.update var v a"
  show ?case
  proof (cases "consistent cw ?a1")
    case (Inl e)
    then show ?thesis by simp
  next
    case (Inr ok)
    show ?thesis
    proof (cases ok)
      case False
      with Inr Cons.IH var show ?thesis by (simp add: delete_absent)
    next
      case True
      from unassigned_update_less [OF var, of v] n
      have "length (filter (\<lambda>v. v \<notin> fst ` set ?a1) (variables cw)) < n" by simp
      from deeper [OF this] obtain r where r: "backtrack n cw d ?a1 = Some r"
        and restored: "\<forall>a'. r = Inr (None, a') \<longrightarrow> a' = ?a1"
        by blast
      show ?thesis
      proof (cases r)
        case (Inl e)
        with Inr True r show ?thesis by simp
      next
        case (Inr res)
        obtain result a' where res: "res = (result, a')" by (cases res)
        show ?thesis
        proof (cases result)
          case None
          with restored Inr res have "a' = ?a1" by simp
          with var have "AList.delete var a' = a" by (simp add: delete_update_absent)
          with \<open>consistent cw ?a1 = Inr ok\<close> True r Inr res None Cons.IH show ?thesis by simp
        next
          case (Some found)
          with \<open>consistent cw ?a1 = Inr ok\<close> True r Inr res show ?thesis by simp
        qed
      qed
    qed
  qed
qed

lemma backtrack_returns:
  "length (filter (\<lambda>v. v \<notin> fst ` set a) (variables cw)) < n \<Longrightarrow>
     \<exists>r. backtrack n cw d a = Some r \<and> (\<forall>a'. r = Inr (None, a') \<longrightarrow> a' = a)"
proof (induction n arbitrary: a)
  case 0
  then show ?case by simp
next
  case (Suc n)
  show ?case
  proof (cases "assignment_complete cw a")
    case True
    then show ?thesis by simp
  next
    case False
    show ?thesis
    proof (cases "select_unassigned_variable cw d a")
      case (Inl e)
      with False show ?thesis by simp
    next
      case (Inr var)
      from select_unassigned_variable_unassigned [OF Inr]
      have var: "var \<in> set (variables cw)" "var \<notin> fst ` set a" by simp_all
      show ?thesis
      proof (cases "order_domain_values cw d var a")
        case (Inl e)
        with False Inr show ?thesis by simp
      next
        case vals: (Inr vals)
        from Suc.prems have "length (filter (\<lambda>v. v \<notin> fst ` set a) (variables cw)) \<le> n" by simp
        from backtrack_values_returns [OF Suc.IH var this, of vals] False Inr vals
        show ?thesis by simp
      qed
    qed
  qed
qed

lemma backtrack_enough_fuel:
  "\<exists>r. backtrack (Suc (length (variables cw))) cw d [] = Some r"
proof -
  have "length (filter (\<lambda>v. v \<notin> fst ` set []) (variables cw)) < Suc (length (variables cw))"
    by simp
  from backtrack_returns [OF this] show ?thesis by blast
qed

lemma solve_returns_iff_ac3_returns:
  "solve cw = None \<longleftrightarrow> ac3 cw (enforce_node_consistency (init_domains cw)) None = None"
proof (cases "ac3 cw (enforce_node_consistency (init_domains cw)) None")
  case None
  then show ?thesis by (simp add: solve_def)
next
  case (Some r)
  show ?thesis
  proof (cases r)
    case (Inl e)
    with Some show ?thesis by (simp add: solve_def)
  next
    case (Inr bd)
    obtain b d where "bd = (b, d)" by (cases bd)
    moreover obtain r' where "backtrack (Suc (length (variables cw))) cw d [] = Some r'"
      using backtrack_enough_fuel by blast
    ultimately show ?thesis using Some Inr
      by (auto simp: solve_def split: sum.splits)
  qed
qed

subsection \<open>What the checks of the source compute\<close>

text \<open>
  The flag of \<open>revise\<close>, on an arc with an overlap: it is \<open>True\<close> exactly when the call
  leaves the store as it was.
\<close>

lemma revise_flag:
  assumes "map_of (overlaps cw) (x, y) = Some (Some (i, j))"
    and "revise cw d x y = Inr (b, d')"
  shows "b \<longleftrightarrow> d' = d"
proof -
  from assms obtain xs where xs: "d x = Some xs"
    by (cases "d x") (auto simp: revise_def overlap_lookup_def)
  from assms xs obtain cd where
    loop: "revise_loop i j xs (d y) ([], True) = Inr (cd, b)" and d': "d' = d(x \<mapsto> cd)"
    by (auto simp: revise_def overlap_lookup_def split: sum.splits)
  have "b \<longleftrightarrow> cd = xs"
  proof (cases "d y")
    case None
    with loop show ?thesis by (cases xs) auto
  next
    case (Some ys)
    from revise_loop_Inr [OF loop [unfolded Some]]
    have "cd = filter (supported i j ys) xs" and "b = (\<forall>w \<in> set xs. supported i j ys w)"
      by simp_all
    then show ?thesis by (simp add: filter_id_conv)
  qed
  also have "\<dots> \<longleftrightarrow> d' = d"
    using xs d' by (metis fun_upd_same fun_upd_triv option.inject)
  finally show ?thesis .
qed

text \<open>
  \<open>consistent\<close> checks that the words are distinct and have the lengths of their
  variables, and nothing else: its loop over the overlaps never answers \<open>False\<close>.
\<close>

lemma consistent_words_iff:
  "consistent_words a allWords \<longleftrightarrow>
     distinct (map snd a) \<and> set (map snd a) \<inter> set allWords = {}
     \<and> list_all (\<lambda>(v, word). var_length v = length word) a"
  by (induction a allWords rule: consistent_words.induct) auto

lemma consistent_overlaps_True: "consistent_overlaps a ovs = Inr True"
  by (induction a ovs rule: consistent_overlaps.induct) (auto split: option.splits)

lemma consistent_iff:
  "consistent cw a = Inr (distinct (map snd a) \<and> list_all (\<lambda>(v, word). var_length v = length word) a)"
  by (simp add: consistent_def consistent_words_iff consistent_overlaps_True)

end
